theory Spec2Isabelle
  imports Complex_Main "HOL-Library.Word"
begin

section \<open>Errors\<close>

text \<open>The Python exceptions that the modelled code can raise.\<close>

datatype error = ValueError | KeyError | IndexError | AttributeError | OverflowError

section \<open>Python ranges\<close>

text \<open>\<^verbatim>\<open>range(a, b)\<close>: the integers from \<open>a\<close> up to \<open>b - 1\<close>, none when \<open>b \<le> a\<close>.\<close>

definition py_range :: "int \<Rightarrow> int \<Rightarrow> int list" where
  "py_range a b = [a .. b - 1]"

section \<open>Algorithm registries (maze/generator.py, maze/solver.py)\<close>

text \<open>
  Both modules keep a module level dictionary \<^verbatim>\<open>_Registry\<close> from names to plug-in
  instances. A plug-in instance is modelled by its \<^verbatim>\<open>name\<close> attribute together with
  the callable itself. \<^verbatim>\<open>register\<close> mutates the dictionary, so the model takes the
  dictionary and returns the outcome of the call together with the dictionary afterwards.
\<close>

record 'a plugin =
  plugin_name :: string
  plugin_call :: 'a

type_synonym 'a registry = "string \<rightharpoonup> 'a plugin"

text \<open>\<^verbatim>\<open>maze.generator.register\<close>\<close>

definition generator_register :: "'a plugin \<Rightarrow> 'a registry \<Rightarrow> (error + 'a plugin) \<times> 'a registry" where
  "generator_register inst reg =
     (let key = plugin_name inst in
      if key \<in> dom reg then (Inl ValueError, reg)
      else (Inr inst, reg(key \<mapsto> inst)))"

text \<open>\<^verbatim>\<open>maze.generator.get_generator\<close>\<close>

definition get_generator :: "'a registry \<Rightarrow> string \<Rightarrow> error + 'a plugin" where
  "get_generator reg name = (case reg name of None \<Rightarrow> Inl KeyError | Some inst \<Rightarrow> Inr inst)"

text \<open>\<^verbatim>\<open>maze.solver.register\<close>\<close>

definition solver_register :: "'a plugin \<Rightarrow> 'a registry \<Rightarrow> (error + 'a plugin) \<times> 'a registry" where
  "solver_register inst reg =
     (let key = plugin_name inst in
      if key \<in> dom reg then (Inl ValueError, reg)
      else (Inr inst, reg(key \<mapsto> inst)))"

text \<open>\<^verbatim>\<open>maze.solver.get_solver\<close>\<close>

definition get_solver :: "'a registry \<Rightarrow> string \<Rightarrow> error + 'a plugin" where
  "get_solver reg name = (case reg name of None \<Rightarrow> Inl KeyError | Some inst \<Rightarrow> Inr inst)"

section \<open>Pacing (gui/app.py, \<^verbatim>\<open>_calc_delay_batch\<close>)\<close>

definition MIN_BATCH :: int where "MIN_BATCH = 1"
definition MAX_BATCH_GEN :: int where "MAX_BATCH_GEN = 50"
definition MAX_BATCH_SOLVE :: int where "MAX_BATCH_SOLVE = 3"
definition DELAY_INSTANT :: int where "DELAY_INSTANT = 0"
definition DELAY_MAX :: int where "DELAY_MAX = 100"

text \<open>Python's \<^verbatim>\<open>int(r)\<close> on a float truncates towards zero.\<close>

definition py_int :: "real \<Rightarrow> int" where
  "py_int r = (if 0 \<le> r then \<lfloor>r\<rfloor> else \<lceil>r\<rceil>)"

text \<open>
  \<^verbatim>\<open>speed_pct\<close> is the float of the speed slider. The delay curve
  \<^verbatim>\<open>int(100 * (1 - (speed_pct - 1) / 99) ** 1.5)\<close> is written over the reals; the rounding
  of the floating point power is not modelled. The batch size is integer arithmetic
  (\<^verbatim>\<open>//\<close> is \<open>div\<close>).
\<close>

definition calc_delay_batch :: "real \<Rightarrow> int \<Rightarrow> bool \<Rightarrow> int \<times> int" where
  "calc_delay_batch speed_pct cell_count solving =
     (if speed_pct \<ge> 100 then (DELAY_INSTANT, MAX_BATCH_GEN)
      else
        let delay = py_int (100 * (1 - (speed_pct - 1) / 99) powr 1.5);
            batch = (if solving then min MAX_BATCH_SOLVE (max MIN_BATCH (cell_count div 400))
                     else min MAX_BATCH_GEN (max MIN_BATCH (cell_count div 200)))
        in (max 1 delay, batch))"

text \<open>
  The delay handed to the event loop by \<^verbatim>\<open>_run_iterator\<close>:
  \<^verbatim>\<open>self.after(max(1, delay_ms), job)\<close>.
\<close>

definition scheduled_delay :: "int \<Rightarrow> int" where
  "scheduled_delay delay_ms = max 1 delay_ms"

section \<open>Grid model (maze/maze.py)\<close>

text \<open>
  Coordinates are \<open>(x, y)\<close> pairs of Python integers. The grid is a uint8 array of shape
  \<open>(h, w)\<close>, kept as a list of \<open>h\<close> rows of \<open>w\<close> bytes, and read as \<^verbatim>\<open>grid[y, x]\<close>.
\<close>

type_synonym node = "int \<times> int"

record maze =
  maze_w :: int
  maze_h :: int
  maze_grid :: "8 word list list"

text \<open>The dataclass constructor with \<^verbatim>\<open>__post_init__\<close>: an all-zero grid.\<close>

definition Maze :: "int \<Rightarrow> int \<Rightarrow> error + maze" where
  "Maze w h =
     (if w \<le> 0 \<or> h \<le> 0 then Inl ValueError
      else Inr \<lparr>maze_w = w, maze_h = h, maze_grid = replicate (nat h) (replicate (nat w) 0)\<rparr>)"

text \<open>
  An index into one axis of length \<open>n\<close> of a numpy array: negative indices count from the
  end, anything outside \<open>[-n, n)\<close> raises \<^verbatim>\<open>IndexError\<close>.
\<close>

definition np_index :: "nat \<Rightarrow> int \<Rightarrow> error + nat" where
  "np_index n i =
     (if 0 \<le> i \<and> i < int n then Inr (nat i)
      else if - int n \<le> i \<and> i < 0 then Inr (nat (i + int n))
      else Inl IndexError)"

text \<open>
  The single cell write \<^verbatim>\<open>maze.grid[y, x] = action\<close>. The indices are resolved first; a
  Python integer that does not fit a uint8 then raises \<^verbatim>\<open>OverflowError\<close> and the array
  is left as it was.
\<close>

definition grid_set :: "maze \<Rightarrow> int \<Rightarrow> int \<Rightarrow> int \<Rightarrow> error + maze" where
  "grid_set m x y action =
     (case np_index (length (maze_grid m)) y of
        Inl e \<Rightarrow> Inl e
      | Inr r \<Rightarrow>
         (case np_index (length (maze_grid m ! r)) x of
            Inl e \<Rightarrow> Inl e
          | Inr c \<Rightarrow>
             if action < 0 \<or> 255 < action then Inl OverflowError
             else
               Inr (m\<lparr>maze_grid := (maze_grid m)[r := (maze_grid m ! r)[c := word_of_int action]]\<rparr>)))"

text \<open>
  The cell read \<^verbatim>\<open>maze.grid[ny, nx]\<close> as the solvers and \<^verbatim>\<open>_pick_endpoints\<close> use it: they
  only read at \<open>0 \<le> nx < w\<close>, \<open>0 \<le> ny < h\<close>. A cell is open to the solvers when its byte is
  not zero.
\<close>

definition cell :: "maze \<Rightarrow> node \<Rightarrow> 8 word" where
  "cell m p = maze_grid m ! nat (snd p) ! nat (fst p)"

text \<open>An edit \<open>(x, y, action)\<close> as the generators yield it, and the replay of edits on a grid.\<close>

type_synonym edit = "int \<times> int \<times> int"

fun apply_edits :: "maze \<Rightarrow> edit list \<Rightarrow> error + maze" where
  "apply_edits m [] = Inr m"
| "apply_edits m ((x, y, action) # es) =
     (case grid_set m x y action of Inl e \<Rightarrow> Inl e | Inr m' \<Rightarrow> apply_edits m' es)"

section \<open>Lazy sequences\<close>

text \<open>
  A Python generator object, seen from its consumer: each \<^verbatim>\<open>next\<close> either yields an item,
  or raises \<^verbatim>\<open>StopIteration\<close> (\<open>Stop\<close>), or raises another exception.
\<close>

datatype 'a lazy = Stop | Raise error | Yield 'a "'a lazy"

text \<open>A run that yields the items of a list and then ends as given.\<close>

fun emit :: "'a list \<Rightarrow> 'a lazy \<Rightarrow> 'a lazy" where
  "emit [] rest = rest"
| "emit (x # xs) rest = Yield x (emit xs rest)"

section \<open>Playback driver (gui/app.py)\<close>

datatype kind = Gen | Solve

text \<open>
  The iterator handed to \<^verbatim>\<open>_run_iterator\<close> together with its \<^verbatim>\<open>kind\<close> string: a generator
  run yields edits, a solver run yields paths.
\<close>

datatype run_it = GenIt "edit lazy" | SolveIt "node list lazy"

fun kind_of :: "run_it \<Rightarrow> kind" where
  "kind_of (GenIt _) = Gen"
| "kind_of (SolveIt _) = Solve"

text \<open>The closure \<^verbatim>\<open>job\<close>: the iterator, the delay and the epoch it captured.\<close>

record job =
  job_it :: run_it
  job_delay :: int
  job_epoch :: int

text \<open>Calls made on the canvas, in order.\<close>

datatype render =
    Draw_maze maze
  | Reset_path
  | Draw_cell int int bool
  | Draw_path "node list"
  | Draw_markers node node
  | Tag_raise_markers

text \<open>
  The attributes of \<^verbatim>\<open>MazeApp\<close>, the canvas (its cell size, its size on screen and the
  calls it received) and the timers of the event loop (\<^verbatim>\<open>after\<close> identifiers with their
  delays and callbacks).
\<close>

record app =
  app_maze :: "maze option"
  app_start :: node
  app_goal :: node
  app_after_id :: "nat option"
  app_run_seq :: int
  app_kind :: "kind option"
  app_batch_size :: int
  app_batch_cnt :: int
  app_cell_px :: int
  app_winfo_width :: int
  app_winfo_height :: int
  app_rendered :: "render list"
  app_timers :: "(nat \<times> int \<times> job) list"
  app_next_timer :: nat

definition render_call :: "render \<Rightarrow> app \<Rightarrow> app" where
  "render_call r s = s\<lparr>app_rendered := app_rendered s @ [r]\<rparr>"

text \<open>\<^verbatim>\<open>self.after(ms, job)\<close> and \<^verbatim>\<open>self.after_cancel(id)\<close>.\<close>

definition after :: "int \<Rightarrow> job \<Rightarrow> app \<Rightarrow> nat \<times> app" where
  "after ms j s =
     (app_next_timer s,
      s\<lparr>app_timers := app_timers s @ [(app_next_timer s, ms, j)],
        app_next_timer := Suc (app_next_timer s)\<rparr>)"

definition after_cancel :: "nat \<Rightarrow> app \<Rightarrow> app" where
  "after_cancel i s = s\<lparr>app_timers := filter (\<lambda>t. fst t \<noteq> i) (app_timers s)\<rparr>"

text \<open>\<^verbatim>\<open>_cancel\<close>\<close>

definition cancel :: "app \<Rightarrow> app" where
  "cancel s =
     (let s1 = (case app_after_id s of
                  None \<Rightarrow> s
                | Some i \<Rightarrow> (after_cancel i s)\<lparr>app_after_id := None\<rparr>)
      in s1\<lparr>app_run_seq := app_run_seq s1 + 1, app_kind := None, app_batch_cnt := 0\<rparr>)"

text \<open>\<^verbatim>\<open>_auto_scale\<close>\<close>

definition auto_scale :: "app \<Rightarrow> app" where
  "auto_scale s =
     (case app_maze s of
        None \<Rightarrow> s
      | Some m \<Rightarrow>
         let cw = app_winfo_width s - 20; ch = app_winfo_height s - 20 in
         if cw \<le> 0 \<or> ch \<le> 0 then s
         else
           let optimal = max 4 (min (min (cw div (maze_w m + 2)) (ch div (maze_h m + 2))) 40) in
           if \<bar>app_cell_px s - optimal\<bar> > 1
           then render_call (Draw_markers (app_start s) (app_goal s))
                  (render_call (Draw_maze m) (s\<lparr>app_cell_px := optimal\<rparr>))
           else s)"

text \<open>\<^verbatim>\<open>_pick_endpoints\<close> with its local \<^verbatim>\<open>first_passage\<close>.\<close>

definition first_passage :: "maze \<Rightarrow> node \<Rightarrow> node" where
  "first_passage m search_from =
     (let x0 = fst search_from; y0 = snd search_from in
      case List.find (\<lambda>p. cell m p \<noteq> 0)
             (concat (map (\<lambda>y. map (\<lambda>x. (if x0 = 0 then x else maze_w m - 1 - x,
                                            if y0 = 0 then y else maze_h m - 1 - y))
                                    (py_range 0 (maze_w m)))
                          (py_range 0 (maze_h m))))
      of None \<Rightarrow> (x0, y0) | Some p \<Rightarrow> p)"

definition pick_endpoints :: "maze \<Rightarrow> app \<Rightarrow> app" where
  "pick_endpoints m s =
     s\<lparr>app_start := first_passage m (0, 0),
       app_goal := first_passage m (maze_w m - 1, maze_h m - 1)\<rparr>"

text \<open>
  \<^verbatim>\<open>_run_iterator\<close>: set the kind, capture the epoch, schedule the first call of \<^verbatim>\<open>job\<close>.
\<close>

definition run_iterator :: "run_it \<Rightarrow> int \<Rightarrow> app \<Rightarrow> app" where
  "run_iterator it delay_ms s =
     (let s1 = s\<lparr>app_kind := Some (kind_of it)\<rparr>;
          epoch = app_run_seq s1;
          (i, s2) = after 1 \<lparr>job_it = it, job_delay = delay_ms, job_epoch = epoch\<rparr> s1
      in s2\<lparr>app_after_id := Some i\<rparr>)"

text \<open>
  The branch of \<^verbatim>\<open>job\<close> on \<^verbatim>\<open>StopIteration\<close>.
\<close>

definition finished :: "kind \<Rightarrow> app \<Rightarrow> error option \<times> app" where
  "finished k s =
     (let s1 = s\<lparr>app_after_id := None\<rparr> in
      case k of
        Gen \<Rightarrow>
         (case app_maze s1 of
            None \<Rightarrow> (Some AttributeError, s1)
          | Some m \<Rightarrow>
             let s2 = pick_endpoints m s1;
                 s3 = render_call (Draw_markers (app_start s2) (app_goal s2)) s2;
                 s4 = render_call Tag_raise_markers s3
             in (None, s4\<lparr>app_kind := None\<rparr>))
      | Solve \<Rightarrow> (None, (render_call Tag_raise_markers s1)\<lparr>app_kind := None\<rparr>))"

text \<open>One pass of the body of the \<^verbatim>\<open>while updates < self._batch_size\<close> loop on an item.\<close>

definition apply_gen :: "edit \<Rightarrow> app \<Rightarrow> error + app" where
  "apply_gen e s =
     (case e of (x, y, action) \<Rightarrow>
        (case app_maze s of
           None \<Rightarrow> Inl AttributeError
         | Some m \<Rightarrow>
            (case grid_set m x y action of
               Inl err \<Rightarrow> Inl err
             | Inr m' \<Rightarrow> Inr (render_call (Draw_cell x y (action \<noteq> 0)) (s\<lparr>app_maze := Some m'\<rparr>)))))"

definition apply_solve :: "node list \<Rightarrow> app \<Rightarrow> app" where
  "apply_solve path s = render_call (Draw_path path) s"

text \<open>
  The batch loop of \<^verbatim>\<open>job\<close>, after the epoch test. An exception other than
  \<^verbatim>\<open>StopIteration\<close> leaves the callback with the state as it is at that point.
\<close>

function batch :: "run_it \<Rightarrow> int \<Rightarrow> int \<Rightarrow> int \<Rightarrow> app \<Rightarrow> error option \<times> app" where
  "batch it delay_ms epoch updates s =
     (if updates < app_batch_size s then
        (case it of
           GenIt Stop \<Rightarrow> finished Gen s
         | GenIt (Raise e) \<Rightarrow> (Some e, s)
         | GenIt (Yield e rest) \<Rightarrow>
            (case apply_gen e s of
               Inl err \<Rightarrow> (Some err, s)
             | Inr s' \<Rightarrow> batch (GenIt rest) delay_ms epoch (updates + 1) s')
         | SolveIt Stop \<Rightarrow> finished Solve s
         | SolveIt (Raise e) \<Rightarrow> (Some e, s)
         | SolveIt (Yield path rest) \<Rightarrow>
            batch (SolveIt rest) delay_ms epoch (updates + 1) (apply_solve path s))
      else
        (let (i, s') = after (scheduled_delay delay_ms)
                         \<lparr>job_it = it, job_delay = delay_ms, job_epoch = epoch\<rparr> s
         in (None, s'\<lparr>app_after_id := Some i\<rparr>)))"
  by pat_completeness auto

lemma apply_gen_batch_size: "apply_gen e s = Inr s' \<Longrightarrow> app_batch_size s' = app_batch_size s"
  by (auto simp: apply_gen_def render_call_def split: prod.splits option.splits sum.splits)

lemma apply_solve_batch_size: "app_batch_size (apply_solve path s) = app_batch_size s"
  by (simp add: apply_solve_def render_call_def)

termination batch
  by (relation "measure (\<lambda>(it, delay_ms, epoch, updates, s). nat (app_batch_size s - updates))")
     (auto simp: apply_solve_batch_size dest: apply_gen_batch_size)

declare batch.simps [simp del]

text \<open>The callback \<^verbatim>\<open>job\<close> itself.\<close>

definition job_run :: "job \<Rightarrow> app \<Rightarrow> error option \<times> app" where
  "job_run j s =
     (if job_epoch j \<noteq> app_run_seq s then (None, s)
      else batch (job_it j) (job_delay j) (job_epoch j) 0 s)"

text \<open>The event loop firing the timer \<open>i\<close>: the timer is consumed and its callback runs.\<close>

definition fire :: "nat \<Rightarrow> app \<Rightarrow> error option \<times> app" where
  "fire i s =
     (case map_of (app_timers s) i of
        None \<Rightarrow> (None, s)
      | Some (ms, j) \<Rightarrow> job_run j (s\<lparr>app_timers := filter (\<lambda>t. fst t \<noteq> i) (app_timers s)\<rparr>))"

text \<open>
  \<^verbatim>\<open>generate\<close>. The generator registry and the outcome of the random choices of the run
  are parameters; a generator plug-in maps width, height and the random outcome to its lazy
  sequence of edits.
\<close>

type_synonym generator = "int \<Rightarrow> int \<Rightarrow> nat list \<Rightarrow> edit lazy"
type_synonym solver = "maze \<Rightarrow> node \<Rightarrow> node \<Rightarrow> node list lazy"

definition generate ::
  "generator registry \<Rightarrow> nat list \<Rightarrow> int \<Rightarrow> int \<Rightarrow> string \<Rightarrow> real \<Rightarrow> app \<Rightarrow> (error + unit) \<times> app" where
  "generate greg rnd rows cols gen_name speed_pct s =
     (let s1 = cancel s in
      case Maze cols rows of
        Inl e \<Rightarrow> (Inl e, s1)
      | Inr m \<Rightarrow>
         let s2 = auto_scale (s1\<lparr>app_maze := Some m\<rparr>);
             s3 = render_call Reset_path s2;
             s4 = render_call (Draw_maze m) s3;
             (delay, batch_sz) = calc_delay_batch speed_pct (rows * cols) False;
             s5 = s4\<lparr>app_batch_size := batch_sz\<rparr>
         in (case get_generator greg gen_name of
               Inl e \<Rightarrow> (Inl e, s5)
             | Inr gen \<Rightarrow>
                (Inr (), run_iterator (GenIt (plugin_call gen (maze_w m) (maze_h m) rnd)) delay s5)))"

text \<open>
  \<^verbatim>\<open>solve\<close>. The two early returns show a message box and leave; they are told apart from
  a started run by the outcome.
\<close>

datatype outcome = Started | Warned_no_maze | Info_busy

definition solve :: "solver registry \<Rightarrow> string \<Rightarrow> real \<Rightarrow> app \<Rightarrow> (error + outcome) \<times> app" where
  "solve sreg sol_name speed_pct s =
     (case app_maze s of
        None \<Rightarrow> (Inr Warned_no_maze, s)
      | Some m \<Rightarrow>
         if app_kind s = Some Gen then (Inr Info_busy, s)
         else
           let s1 = cancel s in
           (case get_solver sreg sol_name of
              Inl e \<Rightarrow> (Inl e, s1)
            | Inr sol \<Rightarrow>
               (let s2 = pick_endpoints m s1;
                    s3 = render_call (Draw_markers (app_start s2) (app_goal s2)) s2;
                    s4 = render_call Reset_path s3;
                    (delay, batch_sz) = calc_delay_batch speed_pct (maze_w m * maze_h m) True;
                    s5 = s4\<lparr>app_batch_size := batch_sz\<rparr>
                in (Inr Started,
                    run_iterator (SolveIt (plugin_call sol m (app_start s5) (app_goal s5))) delay s5))))"

text \<open>What can happen to the driver: a user action or a timer firing.\<close>

datatype event =
    Ev_generate "nat list" int int string real
  | Ev_solve string real
  | Ev_fire nat

fun step :: "generator registry \<Rightarrow> solver registry \<Rightarrow> app \<Rightarrow> event \<Rightarrow> app" where
  "step greg sreg s (Ev_generate rnd rows cols gen_name speed_pct) =
     snd (generate greg rnd rows cols gen_name speed_pct s)"
| "step greg sreg s (Ev_solve sol_name speed_pct) = snd (solve sreg sol_name speed_pct s)"
| "step greg sreg s (Ev_fire i) = snd (fire i s)"

definition steps :: "generator registry \<Rightarrow> solver registry \<Rightarrow> app \<Rightarrow> event list \<Rightarrow> app" where
  "steps greg sreg s evs = foldl (step greg sreg) s evs"

text \<open>
  The state after \<^verbatim>\<open>MazeApp.__init__\<close>: no maze, epoch 0, no run, and a canvas with the
  default cell size that has received no call yet (a widget that is not laid out yet
  reports the size 1 by 1).
\<close>

definition init_app :: app where
  "init_app =
     \<lparr>app_maze = None, app_start = (0, 0), app_goal = (0, 0), app_after_id = None,
      app_run_seq = 0, app_kind = None, app_batch_size = MIN_BATCH, app_batch_cnt = 0,
      app_cell_px = 12, app_winfo_width = 1, app_winfo_height = 1, app_rendered = [],
      app_timers = [], app_next_timer = 0\<rparr>"

section \<open>Random choices\<close>

text \<open>
  The outcome of the random choices of a run is a list of natural numbers, consumed from
  the front; when it is used up, the remaining draws are 0. A draw \<open>r\<close> selects the
  index \<open>r mod n\<close> among \<open>n\<close> candidates, so every selection the random module can
  make is the selection of some outcome.
\<close>

fun draw :: "nat list \<Rightarrow> nat \<times> nat list" where
  "draw [] = (0, [])"
| "draw (r # rnd) = (r, rnd)"

text \<open>\<^verbatim>\<open>random.choice(seq)\<close>: \<^verbatim>\<open>IndexError\<close> on an empty sequence.\<close>

definition choice :: "'a list \<Rightarrow> nat list \<Rightarrow> error + 'a \<times> nat list" where
  "choice xs rnd =
     (if xs = [] then Inl IndexError
      else (case draw rnd of (r, rnd') \<Rightarrow> Inr (xs ! (r mod length xs), rnd')))"

section \<open>Recursive division (algorithms/generators/recursive_division.py)\<close>

text \<open>
  A generator function is modelled by what its consumer sees when it drains it: the edits
  yielded so far, the exception that ended it (\<open>None\<close> for exhaustion), and the random
  outcome that is left.
\<close>

type_synonym gen_run = "edit list \<times> error option \<times> nat list"

text \<open>
  \<^verbatim>\<open>_pick_orientation\<close>: \<open>True\<close> is \<^verbatim>\<open>_HORIZONTAL\<close>. The choice is from the two element
  list \<^verbatim>\<open>[_HORIZONTAL, _VERTICAL]\<close>.
\<close>

definition pick_orientation :: "int \<Rightarrow> int \<Rightarrow> nat list \<Rightarrow> bool \<times> nat list" where
  "pick_orientation w h rnd =
     (if h < w then (False, rnd)
      else if w < h then (True, rnd)
      else (case draw rnd of (r, rnd') \<Rightarrow> ([True, False] ! (r mod 2), rnd')))"

text \<open>
  \<^verbatim>\<open>_divide\<close>, \<^verbatim>\<open>_split_horizontal\<close> and \<^verbatim>\<open>_split_vertical\<close>. Both random choices of a
  split are made before its first yield.
\<close>

function divide :: "int \<Rightarrow> int \<Rightarrow> int \<Rightarrow> int \<Rightarrow> nat list \<Rightarrow> gen_run"
  and split_horizontal :: "int \<Rightarrow> int \<Rightarrow> int \<Rightarrow> int \<Rightarrow> nat list \<Rightarrow> gen_run"
  and split_vertical :: "int \<Rightarrow> int \<Rightarrow> int \<Rightarrow> int \<Rightarrow> nat list \<Rightarrow> gen_run"
where
  "divide x y w h rnd =
     (if w < 3 \<or> h < 3 then ([], None, rnd)
      else
        (case pick_orientation w h rnd of
           (horizontal, rnd1) \<Rightarrow>
             if horizontal then split_horizontal x y w h rnd1
             else split_vertical x y w h rnd1))"
| "split_horizontal x y w h rnd =
     (case choice (filter (\<lambda>yy. yy mod 2 = 0) (py_range (y + 1) (y + h - 1))) rnd of
        Inl e \<Rightarrow> ([], Some e, rnd)
      | Inr (wall_y, rnd1) \<Rightarrow>
         (case choice (filter (\<lambda>xx. xx mod 2 = 1) (py_range x (x + w))) rnd1 of
            Inl e \<Rightarrow> ([], Some e, rnd1)
          | Inr (gap_x, rnd2) \<Rightarrow>
             (let wall = map (\<lambda>xx. (xx, wall_y, 0)) (filter (\<lambda>xx. xx \<noteq> gap_x) (py_range x (x + w)))
              in case divide x y w (wall_y - y) rnd2 of
                   (es1, Some e, rnd3) \<Rightarrow> (wall @ es1, Some e, rnd3)
                 | (es1, None, rnd3) \<Rightarrow>
                    (case divide x (wall_y + 1) w (y + h - (wall_y + 1)) rnd3 of
                       (es2, r, rnd4) \<Rightarrow> (wall @ es1 @ es2, r, rnd4)))))"
| "split_vertical x y w h rnd =
     (case choice (filter (\<lambda>xx. xx mod 2 = 0) (py_range (x + 1) (x + w - 1))) rnd of
        Inl e \<Rightarrow> ([], Some e, rnd)
      | Inr (wall_x, rnd1) \<Rightarrow>
         (case choice (filter (\<lambda>yy. yy mod 2 = 1) (py_range y (y + h))) rnd1 of
            Inl e \<Rightarrow> ([], Some e, rnd1)
          | Inr (gap_y, rnd2) \<Rightarrow>
             (let wall = map (\<lambda>yy. (wall_x, yy, 0)) (filter (\<lambda>yy. yy \<noteq> gap_y) (py_range y (y + h)))
              in case divide x y (wall_x - x) h rnd2 of
                   (es1, Some e, rnd3) \<Rightarrow> (wall @ es1, Some e, rnd3)
                 | (es1, None, rnd3) \<Rightarrow>
                    (case divide (wall_x + 1) y (x + w - (wall_x + 1)) h rnd3 of
                       (es2, r, rnd4) \<Rightarrow> (wall @ es1 @ es2, r, rnd4)))))"
  by pat_completeness auto

lemma choice_in_set: "choice xs rnd = Inr (v, rnd') \<Longrightarrow> v \<in> set xs"
  by (auto simp: choice_def split: if_splits prod.splits)

lemma choice_wall_line:
  "choice (filter P (py_range (a + 1) (a + n - 1))) rnd = Inr (v, rnd') \<Longrightarrow> a + 1 \<le> v \<and> v \<le> a + n - 2"
  by (drule choice_in_set) (auto simp: py_range_def)

termination divide
  by (relation "measure (\<lambda>a. case a of
          Inl (x, y, w, h, rnd) \<Rightarrow> 2 * (nat w + nat h) + 1
        | Inr (Inl (x, y, w, h, rnd)) \<Rightarrow> 2 * (nat w + nat h)
        | Inr (Inr (x, y, w, h, rnd)) \<Rightarrow> 2 * (nat w + nat h))")
     (auto dest!: choice_wall_line)

declare divide.simps [simp del] split_horizontal.simps [simp del] split_vertical.simps [simp del]

text \<open>
  \<^verbatim>\<open>RecursiveDivision.__call__\<close>: the open space of step 1, the outer border of step 2,
  the subdivision, and the entrance and exit of step 4.
\<close>

definition open_space :: "int \<Rightarrow> int \<Rightarrow> edit list" where
  "open_space width height =
     concat (map (\<lambda>y. map (\<lambda>x. (x, y, 1)) (py_range 0 width)) (py_range 0 height))"

definition outer_border :: "int \<Rightarrow> int \<Rightarrow> edit list" where
  "outer_border width height =
     concat (map (\<lambda>x. [(x, 0, 0), (x, height - 1, 0)]) (py_range 0 width)) @
     concat (map (\<lambda>y. [(0, y, 0), (width - 1, y, 0)]) (py_range 0 height))"

definition entrance_exit :: "int \<Rightarrow> int \<Rightarrow> edit list" where
  "entrance_exit width height =
     [(0, if height > 2 then 1 else 0, 1),
      (width - 1, if height > 2 then height - 2 else height - 1, 1)]"

definition recursive_division :: "int \<Rightarrow> int \<Rightarrow> nat list \<Rightarrow> gen_run" where
  "recursive_division width height rnd =
     (case divide 0 0 width height rnd of
        (es, Some e, rnd') \<Rightarrow> (open_space width height @ outer_border width height @ es, Some e, rnd')
      | (es, None, rnd') \<Rightarrow>
         (open_space width height @ outer_border width height @ es @ entrance_exit width height,
          None, rnd'))"

text \<open>The generator object that the driver pulls from.\<close>

definition lazy_of :: "gen_run \<Rightarrow> edit lazy" where
  "lazy_of r = (case r of (es, None, rnd) \<Rightarrow> emit es Stop | (es, Some e, rnd) \<Rightarrow> emit es (Raise e))"

section \<open>Neighbourhood (utils/grid_helpers.py)\<close>

definition FOUR_DIRS :: "(int \<times> int) list" where
  "FOUR_DIRS = [(1, 0), (-1, 0), (0, 1), (0, -1)]"

definition neighbours :: "int \<Rightarrow> int \<Rightarrow> int \<Rightarrow> int \<Rightarrow> node list" where
  "neighbours x y width height =
     filter (\<lambda>(nx, ny). 0 \<le> nx \<and> nx < width \<and> 0 \<le> ny \<and> ny < height)
            (map (\<lambda>(dx, dy). (x + dx, y + dy)) FOUR_DIRS)"

section \<open>Properties of grids\<close>

text \<open>The shape that the constructor gives the array and that cell writes keep.\<close>

definition wf_maze :: "maze \<Rightarrow> bool" where
  "wf_maze m \<longleftrightarrow>
     0 < maze_w m \<and> 0 < maze_h m \<and> length (maze_grid m) = nat (maze_h m) \<and>
     (\<forall>row \<in> set (maze_grid m). length row = nat (maze_w m))"

definition in_grid :: "maze \<Rightarrow> node \<Rightarrow> bool" where
  "in_grid m p \<longleftrightarrow> 0 \<le> fst p \<and> fst p < maze_w m \<and> 0 \<le> snd p \<and> snd p < maze_h m"

text \<open>
  One move on the passage graph: from a passage cell to a 4-neighbour that is a passage.
  The passages form one connected component when there is a passage and every passage is
  reached from every other by such moves.
\<close>

definition passage_step :: "maze \<Rightarrow> (node \<times> node) set" where
  "passage_step m =
     {(p, q). in_grid m p \<and> cell m p \<noteq> 0 \<and> cell m q \<noteq> 0 \<and>
              q \<in> set (neighbours (fst p) (snd p) (maze_w m) (maze_h m))}"

definition one_component :: "maze \<Rightarrow> bool" where
  "one_component m \<longleftrightarrow>
     (\<exists>p. in_grid m p \<and> cell m p \<noteq> 0) \<and>
     (\<forall>p q. in_grid m p \<and> cell m p \<noteq> 0 \<and> in_grid m q \<and> cell m q \<noteq> 0
            \<longrightarrow> (p, q) \<in> (passage_step m)\<^sup>*)"

text \<open>The value of one cell after a list of edits, from its value before.\<close>

fun replay :: "edit list \<Rightarrow> node \<Rightarrow> 8 word \<Rightarrow> 8 word" where
  "replay [] p v = v"
| "replay ((x, y, action) # es) p v = replay es p (if (x, y) = p then word_of_int action else v)"

text \<open>The rectangles that \<^verbatim>\<open>_divide\<close> is called on inside a grid of width \<open>W\<close> and height \<open>H\<close>
  start at 0 or at an odd coordinate and end at the grid's edge or before an even one.\<close>

definition rect_ok :: "int \<Rightarrow> int \<Rightarrow> int \<Rightarrow> int \<Rightarrow> int \<Rightarrow> int \<Rightarrow> bool" where
  "rect_ok W H x y w h \<longleftrightarrow>
     (x = 0 \<or> odd x) \<and> (y = 0 \<or> odd y) \<and> (x + w = W \<or> even (x + w)) \<and> (y + h = H \<or> even (y + h))"

definition wall_in_rect :: "int \<Rightarrow> int \<Rightarrow> int \<Rightarrow> int \<Rightarrow> edit \<Rightarrow> bool" where
  "wall_in_rect x y w h e \<longleftrightarrow>
     x \<le> fst e \<and> fst e < x + w \<and> y \<le> fst (snd e) \<and> fst (snd e) < y + h \<and> snd (snd e) = 0"

text \<open>
  A small run of the driver for examples: one generator plug-in that carves the origin and
  one solver plug-in that yields the start; \<open>generating_app\<close> is the driver right after the
  user asked for a 1 by 1 maze at full speed (run A is scheduled and has not fired yet),
  \<open>first_job\<close> is the continuation that this run scheduled, and \<open>superseding_app\<close> is the
  driver after the user asked for another maze while run A was still pending (run B).
\<close>

definition origin_generators :: "generator registry" where
  "origin_generators =
     [''G'' \<mapsto> \<lparr>plugin_name = ''G'', plugin_call = (\<lambda>w h rnd. Yield (0, 0, 1) Stop)\<rparr>]"

definition start_solvers :: "solver registry" where
  "start_solvers =
     [''S'' \<mapsto> \<lparr>plugin_name = ''S'', plugin_call = (\<lambda>m a b. Yield [a] Stop)\<rparr>]"

definition generating_app :: app where
  "generating_app = snd (generate origin_generators [] 1 1 ''G'' 100 init_app)"

definition first_job :: job where
  "first_job = \<lparr>job_it = GenIt (Yield (0, 0, 1) Stop), job_delay = 0, job_epoch = 1\<rparr>"

definition superseding_app :: app where
  "superseding_app = snd (generate origin_generators [] 1 1 ''G'' 100 generating_app)"

section \<open>Driver: the epoch\<close>

lemma job_run_stale: "job_epoch j \<noteq> app_run_seq s \<Longrightarrow> job_run j s = (None, s)"
  by (simp add: job_run_def)

lemma render_call_fields [simp]:
  "app_run_seq (render_call r s) = app_run_seq s"
  "app_timers (render_call r s) = app_timers s"
  "app_kind (render_call r s) = app_kind s"
  "app_maze (render_call r s) = app_maze s"
  "app_next_timer (render_call r s) = app_next_timer s"
  by (simp_all add: render_call_def)

lemma auto_scale_fields [simp]:
  "app_run_seq (auto_scale s) = app_run_seq s"
  "app_timers (auto_scale s) = app_timers s"
  "app_next_timer (auto_scale s) = app_next_timer s"
  by (simp_all add: auto_scale_def Let_def split: option.splits)

lemma pick_endpoints_fields [simp]:
  "app_run_seq (pick_endpoints m s) = app_run_seq s"
  "app_timers (pick_endpoints m s) = app_timers s"
  "app_next_timer (pick_endpoints m s) = app_next_timer s"
  by (simp_all add: pick_endpoints_def)

lemma finished_run_seq: "app_run_seq (snd (finished k s)) = app_run_seq s"
  by (cases k; cases "app_maze s") (simp_all add: finished_def Let_def)

lemma apply_gen_run_seq: "apply_gen e s = Inr s' \<Longrightarrow> app_run_seq s' = app_run_seq s"
  by (auto simp: apply_gen_def render_call_def split: prod.splits option.splits sum.splits)

lemma apply_solve_run_seq: "app_run_seq (apply_solve path s) = app_run_seq s"
  by (simp add: apply_solve_def render_call_def)

lemma batch_run_seq: "app_run_seq (snd (batch it d e u s)) = app_run_seq s"
proof (induction it d e u s rule: batch.induct)
  case (1 it d e u s)
  show ?case
  proof (cases "u < app_batch_size s")
    case False
    then show ?thesis by (subst batch.simps) (simp add: after_def)
  next
    case True
    show ?thesis
    proof (cases it)
      case (GenIt l)
      show ?thesis
      proof (cases l)
        case Stop
        with GenIt True show ?thesis by (subst batch.simps) (simp add: finished_run_seq)
      next
        case (Raise x)
        with GenIt True show ?thesis by (subst batch.simps) simp
      next
        case (Yield x rest)
        show ?thesis
        proof (cases "apply_gen x s")
          case (Inl a)
          with GenIt True Yield show ?thesis by (subst batch.simps) simp
        next
          case (Inr s')
          with GenIt True Yield "1.IH"(1)[OF True GenIt Yield Inr] show ?thesis
            by (subst batch.simps) (simp add: apply_gen_run_seq)
        qed
      qed
    next
      case (SolveIt l)
      show ?thesis
      proof (cases l)
        case Stop
        with SolveIt True show ?thesis by (subst batch.simps) (simp add: finished_run_seq)
      next
        case (Raise x)
        with SolveIt True show ?thesis by (subst batch.simps) simp
      next
        case (Yield x rest)
        with SolveIt True "1.IH"(2)[OF True SolveIt Yield] show ?thesis
          by (subst batch.simps) (simp add: apply_solve_run_seq)
      qed
    qed
  qed
qed

lemma job_run_run_seq: "app_run_seq (snd (job_run j s)) = app_run_seq s"
  by (simp add: job_run_def batch_run_seq)

lemma fire_run_seq: "app_run_seq (snd (fire i s)) = app_run_seq s"
  by (simp add: fire_def job_run_run_seq split: option.splits prod.splits)

lemma cancel_run_seq: "app_run_seq (cancel s) = app_run_seq s + 1"
  by (cases "app_after_id s") (simp_all add: cancel_def after_cancel_def Let_def)

lemma cancel_timers: "set (app_timers (cancel s)) \<subseteq> set (app_timers s)"
  by (cases "app_after_id s") (auto simp: cancel_def after_cancel_def Let_def)

lemma cancel_maze: "app_maze (cancel s) = app_maze s"
  by (cases "app_after_id s") (simp_all add: cancel_def after_cancel_def Let_def)

lemma run_iterator_schedules:
  "run_iterator it d s =
     s\<lparr>app_kind := Some (kind_of it),
       app_timers := app_timers s @
          [(app_next_timer s, 1, \<lparr>job_it = it, job_delay = d, job_epoch = app_run_seq s\<rparr>)],
       app_next_timer := Suc (app_next_timer s),
       app_after_id := Some (app_next_timer s)\<rparr>"
  by (simp add: run_iterator_def after_def Let_def)

lemma generate_run_seq:
  "app_run_seq (snd (generate greg rnd rows cols gen_name speed_pct s)) = app_run_seq s + 1"
proof -
  obtain d b where db: "calc_delay_batch speed_pct (rows * cols) False = (d, b)"
    by (cases "calc_delay_batch speed_pct (rows * cols) False")
  show ?thesis
    by (cases "Maze cols rows"; cases "get_generator greg gen_name")
       (simp_all add: generate_def Let_def db run_iterator_schedules cancel_run_seq)
qed

lemma generate_timers:
  "set (app_timers (snd (generate greg rnd rows cols gen_name speed_pct s))) - set (app_timers s)
     \<subseteq> {(i, ms, j). job_epoch j = app_run_seq s + 1}"
proof -
  obtain d b where db: "calc_delay_batch speed_pct (rows * cols) False = (d, b)"
    by (cases "calc_delay_batch speed_pct (rows * cols) False")
  show ?thesis
    using cancel_timers[of s]
    by (cases "Maze cols rows"; cases "get_generator greg gen_name")
       (auto simp: generate_def Let_def db run_iterator_schedules cancel_run_seq)
qed

lemma solve_rejected:
  "app_maze s = None \<or> app_kind s = Some Gen \<Longrightarrow> snd (solve sreg sol_name speed_pct s) = s"
  by (cases "app_maze s") (auto simp: solve_def)

lemma solve_accepted:
  assumes "app_maze s = Some m" "app_kind s \<noteq> Some Gen"
  shows "app_run_seq (snd (solve sreg sol_name speed_pct s)) = app_run_seq s + 1"
    and "set (app_timers (snd (solve sreg sol_name speed_pct s))) - set (app_timers s)
           \<subseteq> {(i, ms, j). job_epoch j = app_run_seq s + 1}"
proof -
  obtain d b where db: "calc_delay_batch speed_pct (maze_w m * maze_h m) True = (d, b)"
    by (cases "calc_delay_batch speed_pct (maze_w m * maze_h m) True")
  show "app_run_seq (snd (solve sreg sol_name speed_pct s)) = app_run_seq s + 1"
    using assms
    by (cases "get_solver sreg sol_name")
       (simp_all add: solve_def Let_def db run_iterator_schedules cancel_run_seq)
  show "set (app_timers (snd (solve sreg sol_name speed_pct s))) - set (app_timers s)
           \<subseteq> {(i, ms, j). job_epoch j = app_run_seq s + 1}"
    using assms cancel_timers[of s]
    by (cases "get_solver sreg sol_name")
       (auto simp: solve_def Let_def db run_iterator_schedules cancel_run_seq)
qed

lemma solve_started:
  "fst (solve sreg sol_name speed_pct s) = Inr Started \<Longrightarrow>
     \<exists>m. app_maze s = Some m \<and> app_kind s \<noteq> Some Gen"
  by (cases "app_maze s") (auto simp: solve_def split: if_splits)

lemma solve_run_seq: "app_run_seq s \<le> app_run_seq (snd (solve sreg sol_name speed_pct s))"
proof (cases "app_maze s = None \<or> app_kind s = Some Gen")
  case True
  then show ?thesis by (simp add: solve_rejected)
next
  case False
  then obtain m where "app_maze s = Some m" "app_kind s \<noteq> Some Gen" by auto
  from solve_accepted(1)[OF this] show ?thesis by simp
qed

lemma step_run_seq: "app_run_seq s \<le> app_run_seq (step greg sreg s ev)"
  by (cases ev) (simp_all add: generate_run_seq solve_run_seq fire_run_seq)

lemma steps_run_seq: "app_run_seq s \<le> app_run_seq (steps greg sreg s evs)"
  unfolding steps_def
proof (induction evs arbitrary: s)
  case Nil
  show ?case by simp
next
  case (Cons ev evs)
  have "app_run_seq s \<le> app_run_seq (step greg sreg s ev)" by (rule step_run_seq)
  also have "\<dots> \<le> app_run_seq (foldl (step greg sreg) (step greg sreg s ev) evs)" by (rule Cons.IH)
  finally show ?case by simp
qed

lemma solve_started_run_seq:
  "fst (solve sreg sol_name speed_pct s) = Inr Started \<Longrightarrow>
   app_run_seq (snd (solve sreg sol_name speed_pct s)) = app_run_seq s + 1"
  using solve_started solve_accepted(1) by blast

lemma solve_timers:
  "fst (solve sreg sol_name speed_pct s) = Inr Started \<Longrightarrow>
   set (app_timers (snd (solve sreg sol_name speed_pct s))) - set (app_timers s)
     \<subseteq> {(i, ms, j). job_epoch j = app_run_seq s + 1}"
  using solve_started solve_accepted(2) by blast

lemma generating_app_eq:
  "generating_app =
     \<lparr>app_maze = Some \<lparr>maze_w = 1, maze_h = 1, maze_grid = [[0]]\<rparr>,
      app_start = (0, 0), app_goal = (0, 0), app_after_id = Some 0,
      app_run_seq = 1, app_kind = Some Gen, app_batch_size = 50, app_batch_cnt = 0,
      app_cell_px = 12, app_winfo_width = 1, app_winfo_height = 1,
      app_rendered = [Reset_path, Draw_maze \<lparr>maze_w = 1, maze_h = 1, maze_grid = [[0]]\<rparr>],
      app_timers = [(0, 1, first_job)], app_next_timer = 1\<rparr>"
  by (simp add: generating_app_def first_job_def origin_generators_def init_app_def generate_def
      cancel_def auto_scale_def run_iterator_def after_def render_call_def Maze_def
      get_generator_def calc_delay_batch_def Let_def MIN_BATCH_def MAX_BATCH_GEN_def
      DELAY_INSTANT_def)

lemma first_job_would_carve:
  "fst (job_run first_job generating_app) = None \<and>
   app_maze (snd (job_run first_job generating_app))
     = Some \<lparr>maze_w = 1, maze_h = 1, maze_grid = [[1]]\<rparr>"
  by (simp add: generating_app_eq first_job_def job_run_def batch.simps apply_gen_def
      grid_set_def np_index_def render_call_def finished_def pick_endpoints_def Let_def)

lemma finished_timers: "app_timers (snd (finished k s)) = app_timers s"
  by (cases k; cases "app_maze s") (simp_all add: finished_def Let_def)

lemma apply_gen_timers: "apply_gen e s = Inr s' \<Longrightarrow> app_timers s' = app_timers s"
  by (auto simp: apply_gen_def render_call_def split: prod.splits option.splits sum.splits if_splits)

lemma apply_solve_timers: "app_timers (apply_solve path s) = app_timers s"
  by (simp add: apply_solve_def render_call_def)

lemma batch_timers:
  "set (app_timers (snd (batch it d e u s))) \<subseteq> set (app_timers s) \<union> {t. job_epoch (snd (snd t)) = e}"
proof (induction it d e u s rule: batch.induct)
  case (1 it d e u s)
  show ?case
  proof (cases "u < app_batch_size s")
    case False
    then show ?thesis by (subst batch.simps) (simp add: after_def)
  next
    case True
    show ?thesis
    proof (cases it)
      case (GenIt l)
      show ?thesis
      proof (cases l)
        case Stop
        with GenIt True show ?thesis by (subst batch.simps) (simp add: finished_timers)
      next
        case (Raise x)
        with GenIt True show ?thesis by (subst batch.simps) simp
      next
        case (Yield x rest)
        show ?thesis
        proof (cases "apply_gen x s")
          case (Inl a)
          with GenIt True Yield show ?thesis by (subst batch.simps) simp
        next
          case (Inr s')
          with GenIt True Yield "1.IH"(1)[OF True GenIt Yield Inr] show ?thesis
            by (subst batch.simps) (simp add: apply_gen_timers)
        qed
      qed
    next
      case (SolveIt l)
      show ?thesis
      proof (cases l)
        case Stop
        with SolveIt True show ?thesis by (subst batch.simps) (simp add: finished_timers)
      next
        case (Raise x)
        with SolveIt True show ?thesis by (subst batch.simps) simp
      next
        case (Yield x rest)
        with SolveIt True "1.IH"(2)[OF True SolveIt Yield] show ?thesis
          by (subst batch.simps) (simp add: apply_solve_timers)
      qed
    qed
  qed
qed

text \<open>
  Every continuation that the driver has scheduled carries an epoch that is at most the
  current one: this holds when the application starts and every event keeps it.
\<close>

definition timers_bounded :: "app \<Rightarrow> bool" where
  "timers_bounded s \<longleftrightarrow> (\<forall>t \<in> set (app_timers s). job_epoch (snd (snd t)) \<le> app_run_seq s)"

lemma timers_bounded_generate:
  assumes "timers_bounded s"
  shows "timers_bounded (snd (generate greg rnd rows cols gen_name speed_pct s))"
  unfolding timers_bounded_def
proof
  fix t
  assume t: "t \<in> set (app_timers (snd (generate greg rnd rows cols gen_name speed_pct s)))"
  show "job_epoch (snd (snd t)) \<le> app_run_seq (snd (generate greg rnd rows cols gen_name speed_pct s))"
  proof (cases "t \<in> set (app_timers s)")
    case True
    from assms[unfolded timers_bounded_def] True
    have "job_epoch (snd (snd t)) \<le> app_run_seq s" by (rule bspec)
    then show ?thesis by (simp add: generate_run_seq)
  next
    case False
    with t generate_timers[of greg rnd rows cols gen_name speed_pct s] show ?thesis
      by (auto simp: generate_run_seq)
  qed
qed

lemma timers_bounded_solve:
  assumes "timers_bounded s"
  shows "timers_bounded (snd (solve sreg sol_name speed_pct s))"
proof (cases "app_maze s = None \<or> app_kind s = Some Gen")
  case True
  with assms show ?thesis by (simp add: solve_rejected)
next
  case False
  then obtain m where m: "app_maze s = Some m" "app_kind s \<noteq> Some Gen" by auto
  show ?thesis
    unfolding timers_bounded_def
  proof
    fix t
    assume t: "t \<in> set (app_timers (snd (solve sreg sol_name speed_pct s)))"
    show "job_epoch (snd (snd t)) \<le> app_run_seq (snd (solve sreg sol_name speed_pct s))"
    proof (cases "t \<in> set (app_timers s)")
      case True
      from assms[unfolded timers_bounded_def] True
      have "job_epoch (snd (snd t)) \<le> app_run_seq s" by (rule bspec)
      then show ?thesis by (simp add: solve_accepted(1)[OF m])
    next
      case False
      with t solve_accepted(2)[OF m, of sreg sol_name speed_pct] show ?thesis
        by (auto simp: solve_accepted(1)[OF m])
    qed
  qed
qed

lemma timers_bounded_fire:
  assumes "timers_bounded s"
  shows "timers_bounded (snd (fire i s))"
proof (cases "map_of (app_timers s) i")
  case None
  with assms show ?thesis by (simp add: fire_def)
next
  case (Some a)
  obtain ms j where a: "a = (ms, j)" by (cases a)
  let ?s1 = "s\<lparr>app_timers := filter (\<lambda>t. fst t \<noteq> i) (app_timers s)\<rparr>"
  have b1: "timers_bounded ?s1" using assms by (simp add: timers_bounded_def)
  show ?thesis
  proof (cases "job_epoch j \<noteq> app_run_seq s")
    case True
    with Some a b1 show ?thesis by (simp add: fire_def job_run_def)
  next
    case False
    have "timers_bounded (snd (batch (job_it j) (job_delay j) (job_epoch j) 0 ?s1))"
      unfolding timers_bounded_def
    proof
      fix t
      assume "t \<in> set (app_timers (snd (batch (job_it j) (job_delay j) (job_epoch j) 0 ?s1)))"
      with batch_timers[of "job_it j" "job_delay j" "job_epoch j" 0 ?s1]
      have "t \<in> set (app_timers ?s1) \<or> job_epoch (snd (snd t)) = job_epoch j" by auto
      then have "job_epoch (snd (snd t)) \<le> app_run_seq s"
      proof
        assume "t \<in> set (app_timers ?s1)"
        with b1[unfolded timers_bounded_def] have "job_epoch (snd (snd t)) \<le> app_run_seq ?s1"
          by (rule bspec)
        then show ?thesis by simp
      next
        assume "job_epoch (snd (snd t)) = job_epoch j"
        with False show ?thesis by simp
      qed
      then
      show "job_epoch (snd (snd t)) \<le> app_run_seq (snd (batch (job_it j) (job_delay j) (job_epoch j) 0 ?s1))"
        by (simp add: batch_run_seq)
    qed
    with Some a False show ?thesis by (simp add: fire_def job_run_def)
  qed
qed

lemma timers_bounded_steps:
  "timers_bounded s \<Longrightarrow> timers_bounded (steps greg sreg s evs)"
  unfolding steps_def
proof (induction evs arbitrary: s)
  case Nil
  then show ?case by simp
next
  case (Cons ev evs)
  have "timers_bounded (step greg sreg s ev)"
    using Cons.prems
    by (cases ev) (simp_all add: timers_bounded_generate timers_bounded_solve timers_bounded_fire)
  from Cons.IH[OF this] show ?case by simp
qed

lemma scheduled_epoch_le:
  "(i, ms, j) \<in> set (app_timers (steps greg sreg init_app evs)) \<Longrightarrow>
     job_epoch j \<le> app_run_seq (steps greg sreg init_app evs)"
proof -
  have "timers_bounded init_app" by (simp add: timers_bounded_def init_app_def)
  from timers_bounded_steps[OF this, of greg sreg evs]
  show "(i, ms, j) \<in> set (app_timers (steps greg sreg init_app evs)) \<Longrightarrow>
     job_epoch j \<le> app_run_seq (steps greg sreg init_app evs)"
    by (auto simp: timers_bounded_def)
qed

text \<open>
  C5. Starting a run (a generate, or a solve that is not turned away) increments the epoch,
  and the timer it schedules carries the incremented epoch. A continuation \<open>j\<close> of an
  earlier run holds an epoch that is at most the epoch before the start (every continuation
  that the driver has scheduled does, by \<open>scheduled_epoch_le\<close>); whatever happens
  afterwards (further user actions, timers firing), calling it returns at the epoch test:
  the whole driver state, the grid and the list of canvas calls included, is unchanged.
\<close>

theorem stale_continuation_no_work:
  assumes "job_epoch j \<le> app_run_seq s"
    and "s' = snd (generate greg rnd rows cols gen_name speed_pct s) \<or>
         (fst (solve sreg sol_name speed_pct s) = Inr Started \<and>
          s' = snd (solve sreg sol_name speed_pct s))"
  shows "app_run_seq s' = app_run_seq s + 1 \<and>
         (\<forall>t \<in> set (app_timers s') - set (app_timers s). job_epoch (snd (snd t)) = app_run_seq s') \<and>
         (\<forall>evs. job_run j (steps greg sreg s' evs) = (None, steps greg sreg s' evs))"
proof -
  have seq: "app_run_seq s' = app_run_seq s + 1"
    using assms(2) by (auto simp: generate_run_seq solve_started_run_seq)
  have new: "\<forall>t \<in> set (app_timers s') - set (app_timers s). job_epoch (snd (snd t)) = app_run_seq s'"
    using assms(2) generate_timers[of greg rnd rows cols gen_name speed_pct s]
      solve_timers[of sreg sol_name speed_pct s] seq
    by auto
  have "job_run j (steps greg sreg s' evs) = (None, steps greg sreg s' evs)" for evs
  proof -
    have "app_run_seq s' \<le> app_run_seq (steps greg sreg s' evs)" by (rule steps_run_seq)
    with seq assms(1) have "job_epoch j \<noteq> app_run_seq (steps greg sreg s' evs)" by simp
    then show ?thesis by (rule job_run_stale)
  qed
  with seq new show ?thesis by blast
qed

theorem stale_continuation_no_work_witness:
  "generating_app = steps origin_generators start_solvers init_app [Ev_generate [] 1 1 ''G'' 100] \<and>
   app_timers generating_app = [(0, 1, first_job)] \<and>
   job_epoch first_job \<le> app_run_seq generating_app \<and>
   app_maze (snd (job_run first_job generating_app))
     = Some \<lparr>maze_w = 1, maze_h = 1, maze_grid = [[1]]\<rparr> \<and>
   app_run_seq superseding_app = 2 \<and>
   job_run first_job superseding_app = (None, superseding_app) \<and>
   job_run first_job
      (steps origin_generators start_solvers superseding_app [Ev_fire 0, Ev_fire 1, Ev_solve ''S'' 100])
     = (None,
        steps origin_generators start_solvers superseding_app [Ev_fire 0, Ev_fire 1, Ev_solve ''S'' 100])"
proof -
  have h: "job_epoch first_job \<le> app_run_seq generating_app"
    by (simp add: generating_app_eq first_job_def)
  have "app_run_seq superseding_app = app_run_seq generating_app + 1 \<and>
        (\<forall>t \<in> set (app_timers superseding_app) - set (app_timers generating_app).
            job_epoch (snd (snd t)) = app_run_seq superseding_app) \<and>
        (\<forall>evs. job_run first_job (steps origin_generators start_solvers superseding_app evs)
                = (None, steps origin_generators start_solvers superseding_app evs))"
    by (rule stale_continuation_no_work[where sol_name = "''S''" and speed_pct = 100,
          OF h disjI1[OF superseding_app_def]])
  then have seq: "app_run_seq superseding_app = app_run_seq generating_app + 1"
    and stale: "\<And>evs. job_run first_job (steps origin_generators start_solvers superseding_app evs)
                = (None, steps origin_generators start_solvers superseding_app evs)"
    by blast+
  from seq have 1: "app_run_seq superseding_app = 2" by (simp add: generating_app_eq)
  from stale[of "[]"] have 2: "job_run first_job superseding_app = (None, superseding_app)"
    by (simp add: steps_def)
  have 3: "generating_app = steps origin_generators start_solvers init_app [Ev_generate [] 1 1 ''G'' 100]"
    by (simp add: steps_def generating_app_def)
  have 4: "app_timers generating_app = [(0, 1, first_job)]" by (simp add: generating_app_eq)
  from 1 2 3 4 h first_job_would_carve stale[of "[Ev_fire 0, Ev_fire 1, Ev_solve ''S'' 100]"]
  show ?thesis by blast
qed

section \<open>Driver: busy runs\<close>

text \<open>
  A generator that carves the origin, a solver that yields the start, and the driver state
  reached by generating a 1 by 1 maze at full speed, letting the run finish, and starting a
  solve: a solve run is then active.
\<close>

theorem generate_while_solving_not_rejected:
  "app_kind (steps [''G'' \<mapsto> \<lparr>plugin_name = ''G'', plugin_call = (\<lambda>w h rnd. Yield (0, 0, 1) Stop)\<rparr>]
                   [''S'' \<mapsto> \<lparr>plugin_name = ''S'', plugin_call = (\<lambda>m a b. Yield [a] Stop)\<rparr>]
                   init_app
                   [Ev_generate [] 1 1 ''G'' 100, Ev_fire 0, Ev_solve ''S'' 100]) = Some Solve \<and>
   app_run_seq (steps [''G'' \<mapsto> \<lparr>plugin_name = ''G'', plugin_call = (\<lambda>w h rnd. Yield (0, 0, 1) Stop)\<rparr>]
                   [''S'' \<mapsto> \<lparr>plugin_name = ''S'', plugin_call = (\<lambda>m a b. Yield [a] Stop)\<rparr>]
                   init_app
                   [Ev_generate [] 1 1 ''G'' 100, Ev_fire 0, Ev_solve ''S'' 100]) = 2 \<and>
   app_run_seq (steps [''G'' \<mapsto> \<lparr>plugin_name = ''G'', plugin_call = (\<lambda>w h rnd. Yield (0, 0, 1) Stop)\<rparr>]
                   [''S'' \<mapsto> \<lparr>plugin_name = ''S'', plugin_call = (\<lambda>m a b. Yield [a] Stop)\<rparr>]
                   init_app
                   [Ev_generate [] 1 1 ''G'' 100, Ev_fire 0, Ev_solve ''S'' 100,
                    Ev_generate [] 1 1 ''G'' 100]) = 3"
  by (simp add: steps_def init_app_def generate_def solve_def fire_def job_run_def batch.simps
      cancel_def after_cancel_def after_def auto_scale_def run_iterator_def finished_def
      apply_gen_def apply_solve_def grid_set_def np_index_def render_call_def pick_endpoints_def
      Maze_def get_generator_def get_solver_def calc_delay_batch_def Let_def MIN_BATCH_def
      MAX_BATCH_GEN_def DELAY_INSTANT_def scheduled_delay_def)

text \<open>
  C6 as amended. A solve that is attempted while a generate run is active is turned away
  (with the busy message when there is a maze) and the driver state is exactly what it was.
  A generate is never turned away: whatever run is active, it increments the epoch, which
  cancels that run.
\<close>

theorem solve_while_generating_rejected:
  "app_kind s = Some Gen \<Longrightarrow>
     snd (solve sreg sol_name speed_pct s) = s \<and>
     (app_maze s \<noteq> None \<longrightarrow> solve sreg sol_name speed_pct s = (Inr Info_busy, s)) \<and>
     (app_maze s = None \<longrightarrow> solve sreg sol_name speed_pct s = (Inr Warned_no_maze, s)) \<and>
     app_run_seq (snd (generate greg rnd rows cols gen_name speed_pct' s2)) = app_run_seq s2 + 1"
  by (cases "app_maze s") (simp_all add: solve_def generate_run_seq)

theorem solve_while_generating_rejected_witness:
  "generating_app = steps origin_generators start_solvers init_app [Ev_generate [] 1 1 ''G'' 100] \<and>
   app_kind generating_app = Some Gen \<and>
   app_maze generating_app = Some \<lparr>maze_w = 1, maze_h = 1, maze_grid = [[0]]\<rparr> \<and>
   solve start_solvers ''S'' 100 generating_app = (Inr Info_busy, generating_app)"
proof -
  have k: "app_kind generating_app = Some Gen" by (simp add: generating_app_eq)
  have m: "app_maze generating_app = Some \<lparr>maze_w = 1, maze_h = 1, maze_grid = [[0]]\<rparr>"
    by (simp add: generating_app_eq)
  from solve_while_generating_rejected[OF k, of start_solvers "''S''" 100] m
  have "solve start_solvers ''S'' 100 generating_app = (Inr Info_busy, generating_app)" by simp
  moreover have "generating_app
      = steps origin_generators start_solvers init_app [Ev_generate [] 1 1 ''G'' 100]"
    by (simp add: steps_def generating_app_def)
  ultimately show ?thesis using k m by blast
qed

section \<open>Recursive division: what it emits\<close>

lemma set_py_range [simp]: "set (py_range a b) = {a ..< b}"
  by (auto simp: py_range_def)

lemma wall_in_rect_mono:
  "wall_in_rect x' y' w' h' e \<Longrightarrow> x \<le> x' \<Longrightarrow> x' + w' \<le> x + w \<Longrightarrow> y \<le> y' \<Longrightarrow> y' + h' \<le> y + h
     \<Longrightarrow> wall_in_rect x y w h e"
  by (auto simp: wall_in_rect_def)

lemma divide_walls:
  "\<forall>e \<in> set (fst (divide x y w h rnd)). wall_in_rect x y w h e"
  "\<forall>e \<in> set (fst (split_horizontal x y w h rnd)). wall_in_rect x y w h e"
  "\<forall>e \<in> set (fst (split_vertical x y w h rnd)). wall_in_rect x y w h e"
proof (induction x y w h rnd and x y w h rnd and x y w h rnd
    rule: divide_split_horizontal_split_vertical.induct)
  case (1 x y w h rnd)
  show ?case
  proof (cases "w < 3 \<or> h < 3")
    case True
    then show ?thesis by (simp add: divide.simps)
  next
    case False
    obtain hor rnd1 where po: "pick_orientation w h rnd = (hor, rnd1)"
      by (cases "pick_orientation w h rnd")
    show ?thesis
    proof (cases hor)
      case True
      with "1.IH"(1)[OF False po[symmetric]] False po show ?thesis
        by (simp add: divide.simps[of x y w h rnd])
    next
      case False
      with "1.IH"(2)[OF \<open>\<not> (w < 3 \<or> h < 3)\<close> po[symmetric]] \<open>\<not> (w < 3 \<or> h < 3)\<close> po show ?thesis
        by (simp add: divide.simps[of x y w h rnd])
    qed
  qed
next
  case (2 x y w h rnd)
  let ?c1 = "choice (filter (\<lambda>yy. yy mod 2 = 0) (py_range (y + 1) (y + h - 1))) rnd"
  show ?case
  proof (cases ?c1)
    case (Inl e)
    then show ?thesis by (simp add: split_horizontal.simps[of x y w h rnd])
  next
    case (Inr a)
    obtain wall_y rnd1 where a: "a = (wall_y, rnd1)" by (cases a)
    from Inr a have wy: "y + 1 \<le> wall_y \<and> wall_y \<le> y + h - 2"
      by (auto dest: choice_wall_line)
    let ?c2 = "choice (filter (\<lambda>xx. xx mod 2 = 1) (py_range x (x + w))) rnd1"
    show ?thesis
    proof (cases ?c2)
      case (Inl e)
      with Inr a show ?thesis by (simp add: split_horizontal.simps[of x y w h rnd])
    next
      case c2: (Inr b)
      obtain gap_x rnd2 where b: "b = (gap_x, rnd2)" by (cases b)
      let ?wall = "map (\<lambda>xx. (xx, wall_y, 0)) (filter (\<lambda>xx. xx \<noteq> gap_x) (py_range x (x + w)))"
      have wall: "\<forall>e \<in> set ?wall. wall_in_rect x y w h e"
        using wy by (auto simp: wall_in_rect_def)
      obtain es1 r1 rnd3 where d1: "divide x y w (wall_y - y) rnd2 = (es1, r1, rnd3)"
        by (cases "divide x y w (wall_y - y) rnd2")
      from "2.IH"(1)[OF Inr a[symmetric] c2 b[symmetric] refl] d1
      have "\<forall>e \<in> set es1. wall_in_rect x y w (wall_y - y) e" by simp
      then have es1: "\<forall>e \<in> set es1. wall_in_rect x y w h e"
        using wy by (auto elim!: wall_in_rect_mono)
      show ?thesis
      proof (cases r1)
        case (Some e)
        with Inr a c2 b d1 wall es1 show ?thesis
          by (auto simp: split_horizontal.simps[of x y w h rnd])
      next
        case None
        obtain es2 r2 rnd4 where d2: "divide x (wall_y + 1) w (y + h - (wall_y + 1)) rnd3 = (es2, r2, rnd4)"
          by (cases "divide x (wall_y + 1) w (y + h - (wall_y + 1)) rnd3")
        from "2.IH"(2)[OF Inr a[symmetric] c2 b[symmetric] refl d1[symmetric] refl None] d2
        have "\<forall>e \<in> set es2. wall_in_rect x (wall_y + 1) w (y + h - (wall_y + 1)) e" by simp
        then have es2: "\<forall>e \<in> set es2. wall_in_rect x y w h e"
          using wy by (auto elim!: wall_in_rect_mono)
        from Inr a c2 b d1 None d2 wall es1 es2 show ?thesis
          by (auto simp: split_horizontal.simps[of x y w h rnd])
      qed
    qed
  qed
next
  case (3 x y w h rnd)
  let ?c1 = "choice (filter (\<lambda>xx. xx mod 2 = 0) (py_range (x + 1) (x + w - 1))) rnd"
  show ?case
  proof (cases ?c1)
    case (Inl e)
    then show ?thesis by (simp add: split_vertical.simps[of x y w h rnd])
  next
    case (Inr a)
    obtain wall_x rnd1 where a: "a = (wall_x, rnd1)" by (cases a)
    from Inr a have wx: "x + 1 \<le> wall_x \<and> wall_x \<le> x + w - 2"
      by (auto dest: choice_wall_line)
    let ?c2 = "choice (filter (\<lambda>yy. yy mod 2 = 1) (py_range y (y + h))) rnd1"
    show ?thesis
    proof (cases ?c2)
      case (Inl e)
      with Inr a show ?thesis by (simp add: split_vertical.simps[of x y w h rnd])
    next
      case c2: (Inr b)
      obtain gap_y rnd2 where b: "b = (gap_y, rnd2)" by (cases b)
      let ?wall = "map (\<lambda>yy. (wall_x, yy, 0)) (filter (\<lambda>yy. yy \<noteq> gap_y) (py_range y (y + h)))"
      have wall: "\<forall>e \<in> set ?wall. wall_in_rect x y w h e"
        using wx by (auto simp: wall_in_rect_def)
      obtain es1 r1 rnd3 where d1: "divide x y (wall_x - x) h rnd2 = (es1, r1, rnd3)"
        by (cases "divide x y (wall_x - x) h rnd2")
      from "3.IH"(1)[OF Inr a[symmetric] c2 b[symmetric] refl] d1
      have "\<forall>e \<in> set es1. wall_in_rect x y (wall_x - x) h e" by simp
      then have es1: "\<forall>e \<in> set es1. wall_in_rect x y w h e"
        using wx by (auto elim!: wall_in_rect_mono)
      show ?thesis
      proof (cases r1)
        case (Some e)
        with Inr a c2 b d1 wall es1 show ?thesis
          by (auto simp: split_vertical.simps[of x y w h rnd])
      next
        case None
        obtain es2 r2 rnd4 where d2: "divide (wall_x + 1) y (x + w - (wall_x + 1)) h rnd3 = (es2, r2, rnd4)"
          by (cases "divide (wall_x + 1) y (x + w - (wall_x + 1)) h rnd3")
        from "3.IH"(2)[OF Inr a[symmetric] c2 b[symmetric] refl d1[symmetric] refl None] d2
        have "\<forall>e \<in> set es2. wall_in_rect (wall_x + 1) y (x + w - (wall_x + 1)) h e" by simp
        then have es2: "\<forall>e \<in> set es2. wall_in_rect x y w h e"
          using wx by (auto elim!: wall_in_rect_mono)
        from Inr a c2 b d1 None d2 wall es1 es2 show ?thesis
          by (auto simp: split_vertical.simps[of x y w h rnd])
      qed
    qed
  qed
qed

lemma choice_nonempty: "v \<in> set xs \<Longrightarrow> \<exists>r. choice xs rnd = Inr r"
  by (auto simp: choice_def split: prod.splits)

lemma rect_ok_wall_line:
  assumes "rect_ok W H x y w h" "3 \<le> h" "H \<noteq> 3"
  shows "\<exists>r. choice (filter (\<lambda>yy. yy mod 2 = 0) (py_range (y + 1) (y + h - 1))) rnd = Inr r"
proof -
  show ?thesis
  proof (cases "y = 0")
    case True
    with assms have "4 \<le> h" by (auto simp: rect_ok_def)
    with True have "2 \<in> set (filter (\<lambda>yy. yy mod 2 = 0) (py_range (y + 1) (y + h - 1)))" by simp
    then show ?thesis by (rule choice_nonempty)
  next
    case False
    with assms have "odd y" by (simp add: rect_ok_def)
    with assms(2) have "y + 1 \<in> set (filter (\<lambda>yy. yy mod 2 = 0) (py_range (y + 1) (y + h - 1)))"
      by (simp add: even_iff_mod_2_eq_zero[symmetric])
    then show ?thesis by (rule choice_nonempty)
  qed
qed

lemma rect_ok_gap:
  assumes "x = 0 \<or> odd x" "3 \<le> w"
  shows "\<exists>r. choice (filter (\<lambda>xx. xx mod 2 = 1) (py_range x (x + w))) rnd = Inr r"
proof -
  show ?thesis
  proof (cases "x = 0")
    case True
    with assms have "1 \<in> set (filter (\<lambda>xx. xx mod 2 = 1) (py_range x (x + w)))" by simp
    then show ?thesis by (rule choice_nonempty)
  next
    case False
    with assms have "odd x" by simp
    with assms(2) have "x \<in> set (filter (\<lambda>xx. xx mod 2 = 1) (py_range x (x + w)))"
      by (simp add: odd_iff_mod_2_eq_one[symmetric])
    then show ?thesis by (rule choice_nonempty)
  qed
qed

lemma rect_ok_flip: "rect_ok W H x y w h \<Longrightarrow> rect_ok H W y x h w"
  by (auto simp: rect_ok_def)

lemma choice_parity:
  "choice (filter P xs) rnd = Inr (v, rnd') \<Longrightarrow> P v"
  by (drule choice_in_set) simp

lemma divide_no_error:
  "W \<noteq> 3 \<Longrightarrow> H \<noteq> 3 \<Longrightarrow> rect_ok W H x y w h \<Longrightarrow> fst (snd (divide x y w h rnd)) = None"
  "W \<noteq> 3 \<Longrightarrow> H \<noteq> 3 \<Longrightarrow> rect_ok W H x y w h \<Longrightarrow> 3 \<le> w \<Longrightarrow> 3 \<le> h
     \<Longrightarrow> fst (snd (split_horizontal x y w h rnd)) = None"
  "W \<noteq> 3 \<Longrightarrow> H \<noteq> 3 \<Longrightarrow> rect_ok W H x y w h \<Longrightarrow> 3 \<le> w \<Longrightarrow> 3 \<le> h
     \<Longrightarrow> fst (snd (split_vertical x y w h rnd)) = None"
proof (induction x y w h rnd and x y w h rnd and x y w h rnd
    rule: divide_split_horizontal_split_vertical.induct)
  case (1 x y w h rnd)
  show ?case
  proof (cases "w < 3 \<or> h < 3")
    case True
    then show ?thesis by (simp add: divide.simps)
  next
    case False
    obtain hor rnd1 where po: "pick_orientation w h rnd = (hor, rnd1)"
      by (cases "pick_orientation w h rnd")
    show ?thesis
    proof (cases hor)
      case True
      with "1.IH"(1)[OF False po[symmetric] _ "1.prems"] False po show ?thesis
        by (simp add: divide.simps[of x y w h rnd])
    next
      case False
      with "1.IH"(2)[OF \<open>\<not> (w < 3 \<or> h < 3)\<close> po[symmetric] _ "1.prems"]
        \<open>\<not> (w < 3 \<or> h < 3)\<close> po show ?thesis
        by (simp add: divide.simps[of x y w h rnd])
    qed
  qed
next
  case (2 x y w h rnd)
  note ok = \<open>rect_ok W H x y w h\<close>
  obtain a where c1: "choice (filter (\<lambda>yy. yy mod 2 = 0) (py_range (y + 1) (y + h - 1))) rnd = Inr a"
    using rect_ok_wall_line[OF ok \<open>3 \<le> h\<close> \<open>H \<noteq> 3\<close>] by blast
  obtain wall_y rnd1 where a: "a = (wall_y, rnd1)" by (cases a)
  from c1 a have ev: "even wall_y"
    by (auto dest!: choice_parity simp: even_iff_mod_2_eq_zero)
  from ok have "x = 0 \<or> odd x" by (simp add: rect_ok_def)
  from rect_ok_gap[OF this \<open>3 \<le> w\<close>]
  obtain b where c2: "choice (filter (\<lambda>xx. xx mod 2 = 1) (py_range x (x + w))) rnd1 = Inr b"
    by blast
  obtain gap_x rnd2 where b: "b = (gap_x, rnd2)" by (cases b)
  obtain es1 r1 rnd3 where d1: "divide x y w (wall_y - y) rnd2 = (es1, r1, rnd3)"
    by (cases "divide x y w (wall_y - y) rnd2")
  have ok1: "rect_ok W H x y w (wall_y - y)"
    using ok ev by (auto simp: rect_ok_def)
  from "2.IH"(1)[OF c1 a[symmetric] c2 b[symmetric] refl \<open>W \<noteq> 3\<close> \<open>H \<noteq> 3\<close> ok1] d1
  have r1: "r1 = None" by simp
  obtain es2 r2 rnd4 where d2: "divide x (wall_y + 1) w (y + h - (wall_y + 1)) rnd3 = (es2, r2, rnd4)"
    by (cases "divide x (wall_y + 1) w (y + h - (wall_y + 1)) rnd3")
  have ok2: "rect_ok W H x (wall_y + 1) w (y + h - (wall_y + 1))"
    using ok ev by (auto simp: rect_ok_def)
  from "2.IH"(2)[OF c1 a[symmetric] c2 b[symmetric] refl d1[symmetric] refl r1
      \<open>W \<noteq> 3\<close> \<open>H \<noteq> 3\<close> ok2] d2
  have "r2 = None" by simp
  with c1 a c2 b d1 r1 d2 show ?case
    by (simp add: split_horizontal.simps[of x y w h rnd])
next
  case (3 x y w h rnd)
  note ok = \<open>rect_ok W H x y w h\<close>
  obtain a where c1: "choice (filter (\<lambda>xx. xx mod 2 = 0) (py_range (x + 1) (x + w - 1))) rnd = Inr a"
    using rect_ok_wall_line[OF rect_ok_flip[OF ok] \<open>3 \<le> w\<close> \<open>W \<noteq> 3\<close>] by blast
  obtain wall_x rnd1 where a: "a = (wall_x, rnd1)" by (cases a)
  from c1 a have ev: "even wall_x"
    by (auto dest!: choice_parity simp: even_iff_mod_2_eq_zero)
  from ok have "y = 0 \<or> odd y" by (simp add: rect_ok_def)
  from rect_ok_gap[OF this \<open>3 \<le> h\<close>]
  obtain b where c2: "choice (filter (\<lambda>yy. yy mod 2 = 1) (py_range y (y + h))) rnd1 = Inr b"
    by blast
  obtain gap_y rnd2 where b: "b = (gap_y, rnd2)" by (cases b)
  obtain es1 r1 rnd3 where d1: "divide x y (wall_x - x) h rnd2 = (es1, r1, rnd3)"
    by (cases "divide x y (wall_x - x) h rnd2")
  have ok1: "rect_ok W H x y (wall_x - x) h"
    using ok ev by (auto simp: rect_ok_def)
  from "3.IH"(1)[OF c1 a[symmetric] c2 b[symmetric] refl \<open>W \<noteq> 3\<close> \<open>H \<noteq> 3\<close> ok1] d1
  have r1: "r1 = None" by simp
  obtain es2 r2 rnd4 where d2: "divide (wall_x + 1) y (x + w - (wall_x + 1)) h rnd3 = (es2, r2, rnd4)"
    by (cases "divide (wall_x + 1) y (x + w - (wall_x + 1)) h rnd3")
  have ok2: "rect_ok W H (wall_x + 1) y (x + w - (wall_x + 1)) h"
    using ok ev by (auto simp: rect_ok_def)
  from "3.IH"(2)[OF c1 a[symmetric] c2 b[symmetric] refl d1[symmetric] refl r1
      \<open>W \<noteq> 3\<close> \<open>H \<noteq> 3\<close> ok2] d2
  have "r2 = None" by simp
  with c1 a c2 b d1 r1 d2 show ?case
    by (simp add: split_vertical.simps[of x y w h rnd])
qed

lemma recursive_division_no_error:
  assumes "width \<noteq> 3" "height \<noteq> 3"
  shows "fst (snd (recursive_division width height rnd)) = None"
proof -
  have "rect_ok width height 0 0 width height" by (simp add: rect_ok_def)
  from divide_no_error(1)[OF assms this, of rnd] show ?thesis
    by (cases "divide 0 0 width height rnd")
       (auto simp: recursive_division_def split: option.splits)
qed

section \<open>Replaying edits on a grid\<close>

lemma Maze_wf: "0 < w \<Longrightarrow> 0 < h \<Longrightarrow> \<exists>m. Maze w h = Inr m \<and> wf_maze m \<and> maze_w m = w \<and> maze_h m = h
    \<and> (\<forall>p. in_grid m p \<longrightarrow> cell m p = 0)"
  by (auto simp: Maze_def wf_maze_def in_grid_def cell_def)

lemma grid_set_in_grid:
  assumes "wf_maze m" "in_grid m (x, y)" "0 \<le> a \<and> a \<le> 255"
  shows "\<exists>m'. grid_set m x y a = Inr m' \<and> wf_maze m' \<and> maze_w m' = maze_w m \<and> maze_h m' = maze_h m \<and>
           (\<forall>p. in_grid m p \<longrightarrow> cell m' p = (if (x, y) = p then word_of_int a else cell m p))"
proof -
  from assms have y: "0 \<le> y" "y < int (length (maze_grid m))" and x: "0 \<le> x" "x < maze_w m"
    by (auto simp: wf_maze_def in_grid_def)
  from y assms(1) have row: "length (maze_grid m ! nat y) = nat (maze_w m)"
    by (auto simp: wf_maze_def)
  let ?m' = "m\<lparr>maze_grid := (maze_grid m)[nat y := (maze_grid m ! nat y)[nat x := word_of_int a]]\<rparr>"
  have gs: "grid_set m x y a = Inr ?m'"
    using x y row assms(3) by (simp add: grid_set_def np_index_def)
  have wf: "wf_maze ?m'"
    using assms(1) row by (auto simp: wf_maze_def dest!: set_update_subset_insert[THEN subsetD])
  have cells: "cell ?m' p = (if (x, y) = p then word_of_int a else cell m p)" if "in_grid m p" for p
  proof -
    obtain px py where p: "p = (px, py)" by (cases p)
    from that p assms(1) have py: "0 \<le> py" "nat py < length (maze_grid m)" and px: "0 \<le> px" "px < maze_w m"
      by (auto simp: in_grid_def wf_maze_def)
    from py assms(1) have rowp: "length (maze_grid m ! nat py) = nat (maze_w m)"
      by (auto simp: wf_maze_def)
    show ?thesis
      using p x y px py row rowp
      by (auto simp: cell_def nth_list_update)
  qed
  from gs wf cells show ?thesis by auto
qed

lemma apply_edits_replay:
  assumes "wf_maze m"
    "\<forall>e \<in> set es. in_grid m (fst e, fst (snd e)) \<and> 0 \<le> snd (snd e) \<and> snd (snd e) \<le> 255"
  shows "\<exists>m'. apply_edits m es = Inr m' \<and> wf_maze m' \<and> maze_w m' = maze_w m \<and> maze_h m' = maze_h m \<and>
           (\<forall>p. in_grid m p \<longrightarrow> cell m' p = replay es p (cell m p))"
  using assms
proof (induction es arbitrary: m)
  case Nil
  then show ?case by simp
next
  case (Cons e es)
  obtain x y a where e: "e = (x, y, a)" by (cases e)
  from Cons.prems e have "in_grid m (x, y)" and "0 \<le> a \<and> a \<le> 255" by simp_all
  from grid_set_in_grid[OF Cons.prems(1) this]
  obtain m1 where m1: "grid_set m x y a = Inr m1" "wf_maze m1" "maze_w m1 = maze_w m"
    "maze_h m1 = maze_h m"
    "\<forall>p. in_grid m p \<longrightarrow> cell m1 p = (if (x, y) = p then word_of_int a else cell m p)"
    by blast
  have same: "in_grid m1 p = in_grid m p" for p
    using m1 by (simp add: in_grid_def)
  from Cons.prems(2)
  have "\<forall>e \<in> set es. in_grid m1 (fst e, fst (snd e)) \<and> 0 \<le> snd (snd e) \<and> snd (snd e) \<le> 255"
    by (simp add: same)
  from Cons.IH[OF m1(2) this]
  obtain m' where m': "apply_edits m1 es = Inr m'" "wf_maze m'" "maze_w m' = maze_w m1"
    "maze_h m' = maze_h m1" "\<forall>p. in_grid m1 p \<longrightarrow> cell m' p = replay es p (cell m1 p)"
    by blast
  from m1 m' e same show ?case by auto
qed

lemma replay_append: "replay (es1 @ es2) p v = replay es2 p (replay es1 p v)"
  by (induction es1 p v rule: replay.induct) auto

lemma replay_walls: "\<forall>e \<in> set es. snd (snd e) = 0 \<Longrightarrow> replay es p 0 = 0"
  by (induction es p "0 :: 8 word" rule: replay.induct) auto

lemma replay_wall_hit:
  "\<forall>e \<in> set es. snd (snd e) = 0 \<Longrightarrow> (fst p, snd p, 0) \<in> set es \<Longrightarrow> replay es p v = 0"
proof (induction es p v rule: replay.induct)
  case (1 p v)
  then show ?case by simp
next
  case (2 x y action es p v)
  show ?case
  proof (cases "(fst p, snd p, 0) \<in> set es")
    case True
    from "2.prems"(1) have "\<forall>e \<in> set es. snd (snd e) = 0" by simp
    from "2.IH"[OF this True] show ?thesis by (simp split del: if_split)
  next
    case False
    with "2.prems" have "(x, y) = p" "action = 0" by auto
    with "2.prems"(1) show ?thesis by (simp add: replay_walls)
  qed
qed

lemma replay_miss: "\<forall>e \<in> set es. (fst e, fst (snd e)) \<noteq> p \<Longrightarrow> replay es p v = v"
  by (induction es p v rule: replay.induct) auto

section \<open>Recursive division on a 3 by 3 grid\<close>

lemma no_wall_line_3: "filter (\<lambda>yy. yy mod 2 = 0) (py_range (0 + 1) (0 + 3 - 1)) = []"
  by (simp add: py_range_def)

lemma split_3x3:
  "split_horizontal 0 0 3 3 rnd = ([], Some IndexError, rnd)"
  "split_vertical 0 0 3 3 rnd = ([], Some IndexError, rnd)"
  by (simp_all add: split_horizontal.simps[of 0 0 3 3] split_vertical.simps[of 0 0 3 3]
      no_wall_line_3 choice_def)

lemma divide_3x3: "\<exists>rnd'. divide 0 0 3 3 rnd = ([], Some IndexError, rnd')"
proof -
  obtain hor rnd1 where "pick_orientation 3 3 rnd = (hor, rnd1)"
    by (cases "pick_orientation 3 3 rnd")
  then show ?thesis
    by (cases hor) (simp_all add: divide.simps[of 0 0 3 3] split_3x3)
qed

text \<open>
  C3. Draining a generator is claimed never to raise. On a 3 by 3 grid Recursive Division
  yields the 9 edits of the open space and the 12 edits of the border, and the next pull
  raises \<^verbatim>\<open>IndexError\<close>, whatever the random choices: the rectangle is square, and both
  the horizontal and the vertical split look for an even wall line strictly between 0 and 2.
\<close>

theorem recursive_division_3x3_raises:
  "fst (snd (recursive_division 3 3 rnd)) = Some IndexError \<and>
   lazy_of (recursive_division 3 3 rnd) = emit (open_space 3 3 @ outer_border 3 3) (Raise IndexError)"
proof -
  from divide_3x3 obtain rnd' where "divide 0 0 3 3 rnd = ([], Some IndexError, rnd')" ..
  then show ?thesis by (simp add: recursive_division_def lazy_of_def)
qed

section \<open>Recursive division on a 7 by 7 grid\<close>

lemma recursive_division_edits:
  assumes "fst (snd (recursive_division width height rnd)) = None"
  shows "\<exists>des rnd'. recursive_division width height rnd =
           (open_space width height @ outer_border width height @ des @ entrance_exit width height,
            None, rnd') \<and>
         (\<forall>e \<in> set des. wall_in_rect 0 0 width height e)"
proof -
  obtain des r rnd' where d: "divide 0 0 width height rnd = (des, r, rnd')"
    by (cases "divide 0 0 width height rnd")
  with assms have "r = None" by (cases r) (simp_all add: recursive_division_def)
  with d divide_walls(1)[of 0 0 width height rnd] show ?thesis
    by (simp add: recursive_division_def)
qed

lemma outer_border_walls: "\<forall>e \<in> set (outer_border width height). snd (snd e) = 0"
  by (auto simp: outer_border_def)

lemma outer_border_hit:
  "0 \<le> x \<Longrightarrow> x < width \<Longrightarrow> 0 \<le> y \<Longrightarrow> y < height \<Longrightarrow>
   x = 0 \<or> x = width - 1 \<or> y = 0 \<or> y = height - 1 \<Longrightarrow> (x, y, 0) \<in> set (outer_border width height)"
  by (auto simp: outer_border_def)

lemma edits_in_grid_7:
  assumes "maze_w m = 7" "maze_h m = 7" "\<forall>e \<in> set des. wall_in_rect 0 0 7 7 e"
  shows "\<forall>e \<in> set (open_space 7 7 @ outer_border 7 7 @ des @ entrance_exit 7 7).
           in_grid m (fst e, fst (snd e)) \<and> 0 \<le> snd (snd e) \<and> snd (snd e) \<le> 255"
  using assms
  by (auto simp: open_space_def outer_border_def entrance_exit_def in_grid_def wall_in_rect_def)

text \<open>
  C9. Whatever the random choices, Recursive Division on a 7 by 7 grid runs to exhaustion,
  its edits replay on the fresh 7 by 7 grid without an error, and in the final grid a cell
  of the outer border is a passage exactly when it is \<open>(0, 1)\<close> or \<open>(6, 5)\<close>.
\<close>

theorem recursive_division_7x7_border:
  "\<exists>es rnd' m0 m.
     recursive_division 7 7 rnd = (es, None, rnd') \<and> Maze 7 7 = Inr m0 \<and>
     apply_edits m0 es = Inr m \<and>
     (\<forall>x y. 0 \<le> x \<and> x < 7 \<and> 0 \<le> y \<and> y < 7 \<and> (x = 0 \<or> x = 6 \<or> y = 0 \<or> y = 6) \<longrightarrow>
        (cell m (x, y) \<noteq> 0) = ((x, y) = (0, 1) \<or> (x, y) = (6, 5)))"
proof -
  have "fst (snd (recursive_division 7 7 rnd)) = None"
    by (rule recursive_division_no_error) simp_all
  from recursive_division_edits[OF this]
  obtain des rnd' where rd: "recursive_division 7 7 rnd =
      (open_space 7 7 @ outer_border 7 7 @ des @ entrance_exit 7 7, None, rnd')"
    and des: "\<forall>e \<in> set des. wall_in_rect 0 0 7 7 e"
    by blast
  let ?es = "open_space 7 7 @ outer_border 7 7 @ des @ entrance_exit 7 7"
  from Maze_wf[of 7 7]
  obtain m0 where m0: "Maze 7 7 = Inr m0" "wf_maze m0" "maze_w m0 = 7" "maze_h m0 = 7"
    "\<forall>p. in_grid m0 p \<longrightarrow> cell m0 p = 0"
    by auto
  from apply_edits_replay[OF m0(2) edits_in_grid_7[OF m0(3,4) des]]
  obtain m where m: "apply_edits m0 ?es = Inr m"
    "\<forall>p. in_grid m0 p \<longrightarrow> cell m p = replay ?es p (cell m0 p)"
    by blast
  have "(cell m (x, y) \<noteq> 0) = ((x, y) = (0, 1) \<or> (x, y) = (6, 5))"
    if b: "0 \<le> x \<and> x < 7 \<and> 0 \<le> y \<and> y < 7 \<and> (x = 0 \<or> x = 6 \<or> y = 0 \<or> y = 6)" for x y
  proof -
    from b m0 have ig: "in_grid m0 (x, y)" by (simp add: in_grid_def)
    from b have "(x, y, 0) \<in> set (outer_border 7 7)"
      by (intro outer_border_hit) auto
    then have "replay (outer_border 7 7) (x, y) v = 0" for v
      using replay_wall_hit[OF outer_border_walls, of "(x, y)" 7 7 v] by simp
    moreover have "replay des (x, y) 0 = 0"
      using des by (intro replay_walls) (simp add: wall_in_rect_def)
    ultimately have "replay ?es (x, y) (cell m0 (x, y)) = replay (entrance_exit 7 7) (x, y) 0"
      by (simp add: replay_append)
    with m(2) ig have "cell m (x, y) = replay (entrance_exit 7 7) (x, y) 0" by simp
    then show ?thesis by (auto simp: entrance_exit_def)
  qed
  with rd m0(1) m(1) show ?thesis by blast
qed

theorem recursive_division_7x7_border_witness:
  "\<exists>es rnd' m0 m.
     recursive_division 7 7 [0, 1, 2] = (es, None, rnd') \<and> Maze 7 7 = Inr m0 \<and>
     apply_edits m0 es = Inr m \<and> cell m (0, 1) \<noteq> 0 \<and> cell m (6, 5) \<noteq> 0 \<and> cell m (3, 0) = 0"
proof -
  from recursive_division_7x7_border[of "[0, 1, 2]"]
  obtain es rnd' m0 m where h: "recursive_division 7 7 [0, 1, 2] = (es, None, rnd')"
    "Maze 7 7 = Inr m0" "apply_edits m0 es = Inr m"
    and b: "\<forall>x y. 0 \<le> x \<and> x < 7 \<and> 0 \<le> y \<and> y < 7 \<and> (x = 0 \<or> x = 6 \<or> y = 0 \<or> y = 6) \<longrightarrow>
        (cell m (x, y) \<noteq> 0) = ((x, y) = (0, 1) \<or> (x, y) = (6, 5))"
    by blast
  from b[rule_format, of 0 1] b[rule_format, of 6 5] b[rule_format, of 3 0]
  have "cell m (0, 1) \<noteq> 0" "cell m (6, 5) \<noteq> 0" "cell m (3, 0) = 0" by simp_all
  with h show ?thesis by blast
qed

section \<open>Recursive division on a 6 by 6 grid\<close>

text \<open>
  The run in which the square is split horizontally (draw 0), the wall line is row 4
  (draw 1 among rows 2 and 4) and every later draw is 0.
\<close>

lemma recursive_division_6x6_run:
  "recursive_division 6 6 [0, 1] = (fst (recursive_division 6 6 [0, 1]), None, [])"
  by code_simp

lemma recursive_division_6x6_grid:
  "apply_edits \<lparr>maze_w = 6, maze_h = 6, maze_grid = replicate 6 (replicate 6 0)\<rparr>
     (fst (recursive_division 6 6 [0, 1]))
   = Inr \<lparr>maze_w = 6, maze_h = 6,
          maze_grid = [[0, 0, 0, 0, 0, 0], [1, 1, 1, 1, 1, 0], [0, 1, 0, 1, 0, 0],
                       [0, 1, 0, 1, 1, 0], [0, 1, 0, 0, 0, 1], [0, 0, 0, 0, 0, 0]]\<rparr>"
  by code_simp

lemma isolated_not_one_component:
  assumes "in_grid m p" "cell m p \<noteq> 0" "in_grid m q" "cell m q \<noteq> 0" "p \<noteq> q"
    and "\<forall>z \<in> set (neighbours (fst p) (snd p) (maze_w m) (maze_h m)). cell m z = 0"
  shows "\<not> one_component m"
proof
  assume "one_component m"
  with assms(1-4) have "(p, q) \<in> (passage_step m)\<^sup>*" unfolding one_component_def by blast
  then show False
  proof (cases rule: converse_rtranclE)
    case base
    with assms(5) show ?thesis by simp
  next
    case (step z)
    then have "z \<in> set (neighbours (fst p) (snd p) (maze_w m) (maze_h m))" "cell m z \<noteq> 0"
      by (auto simp: passage_step_def)
    with assms(6) show ?thesis by blast
  qed
qed

text \<open>
  C2. Every generator's final passage set is claimed to be one connected component. Recursive
  Division on a 6 by 6 grid, with the wall line on row 4, ends with the exit cell \<open>(5, 4)\<close>
  opened inside that wall line: its three neighbours in the grid are walls, so it is a
  passage that no other passage reaches.
\<close>

theorem recursive_division_6x6_disconnected:
  "\<exists>es rnd' m0 m.
     recursive_division 6 6 [0, 1] = (es, None, rnd') \<and> Maze 6 6 = Inr m0 \<and>
     apply_edits m0 es = Inr m \<and>
     cell m (5, 4) \<noteq> 0 \<and> cell m (0, 1) \<noteq> 0 \<and>
     set (neighbours 5 4 6 6) = {(4, 4), (5, 5), (5, 3)} \<and>
     cell m (4, 4) = 0 \<and> cell m (5, 5) = 0 \<and> cell m (5, 3) = 0 \<and>
     \<not> one_component m"
proof -
  let ?m = "\<lparr>maze_w = 6, maze_h = 6,
          maze_grid = [[0, 0, 0, 0, 0, 0], [1, 1, 1, 1, 1, 0], [0, 1, 0, 1, 0, 0],
                       [0, 1, 0, 1, 1, 0], [0, 1, 0, 0, 0, 1], [0, 0, 0, 0, 0, 0 :: 8 word]]\<rparr>"
  have nb: "neighbours 5 4 6 6 = [(4, 4), (5, 5), (5, 3)]"
    by (simp add: neighbours_def FOUR_DIRS_def)
  have cells: "cell ?m (5, 4) \<noteq> 0" "cell ?m (0, 1) \<noteq> 0"
    "cell ?m (4, 4) = 0" "cell ?m (5, 5) = 0" "cell ?m (5, 3) = 0"
    by (simp_all add: cell_def)
  have "\<not> one_component ?m"
    by (rule isolated_not_one_component[of ?m "(5, 4)" "(0, 1)"])
       (simp_all add: in_grid_def cells nb)
  moreover have "Maze 6 6 = Inr \<lparr>maze_w = 6, maze_h = 6, maze_grid = replicate 6 (replicate 6 0)\<rparr>"
    by (simp add: Maze_def)
  ultimately show ?thesis
    using recursive_division_6x6_run recursive_division_6x6_grid cells nb
    by (intro exI[of _ "fst (recursive_division 6 6 [0, 1])"] exI[of _ "[]"]
        exI[of _ "\<lparr>maze_w = 6, maze_h = 6, maze_grid = replicate 6 (replicate 6 0)\<rparr>"]
        exI[of _ ?m]) simp
qed

theorem recursive_division_6x6_disconnected_witness:
  "\<exists>es rnd' m0 m.
     recursive_division 6 6 [0, 1] = (es, None, rnd') \<and> Maze 6 6 = Inr m0 \<and>
     apply_edits m0 es = Inr m \<and>
     cell m (5, 4) \<noteq> 0 \<and> cell m (0, 1) \<noteq> 0 \<and>
     cell m (4, 4) = 0 \<and> cell m (5, 5) = 0 \<and> cell m (5, 3) = 0"
  using recursive_division_6x6_disconnected by blast

section \<open>Registry: duplicate registration\<close>

text \<open>
  C8. In each of the two registries, \<^verbatim>\<open>register\<close> with a name that is already present
  raises the duplicate-name error (\<^verbatim>\<open>ValueError\<close>) and the dictionary after the failed call
  is the dictionary before it, so the earlier binding of the name is still there.
\<close>

theorem register_duplicate_unchanged:
  "plugin_name g \<in> dom greg \<Longrightarrow> plugin_name s \<in> dom sreg \<Longrightarrow>
     generator_register g greg = (Inl ValueError, greg) \<and>
     solver_register s sreg = (Inl ValueError, sreg) \<and>
     snd (generator_register g greg) (plugin_name g) = greg (plugin_name g) \<and>
     snd (solver_register s sreg) (plugin_name s) = sreg (plugin_name s)"
  by (simp add: generator_register_def solver_register_def Let_def)

theorem register_duplicate_unchanged_witness:
  "generator_register \<lparr>plugin_name = ''BFS'', plugin_call = (2::nat)\<rparr>
      [''BFS'' \<mapsto> \<lparr>plugin_name = ''BFS'', plugin_call = 1\<rparr>]
     = (Inl ValueError, [''BFS'' \<mapsto> \<lparr>plugin_name = ''BFS'', plugin_call = 1\<rparr>]) \<and>
   solver_register \<lparr>plugin_name = ''BFS'', plugin_call = (2::nat)\<rparr>
      [''BFS'' \<mapsto> \<lparr>plugin_name = ''BFS'', plugin_call = 1\<rparr>]
     = (Inl ValueError, [''BFS'' \<mapsto> \<lparr>plugin_name = ''BFS'', plugin_call = 1\<rparr>])"
  using register_duplicate_unchanged
     [of "\<lparr>plugin_name = ''BFS'', plugin_call = (2::nat)\<rparr>"
         "[''BFS'' \<mapsto> \<lparr>plugin_name = ''BFS'', plugin_call = 1\<rparr>]"
         "\<lparr>plugin_name = ''BFS'', plugin_call = (2::nat)\<rparr>"
         "[''BFS'' \<mapsto> \<lparr>plugin_name = ''BFS'', plugin_call = 1\<rparr>]"]
  by simp

section \<open>Pacing: the solving batch at maximum speed\<close>

text \<open>
  C7. The batch size of a solving run is claimed to stay at most the solving cap 3 for every
  speed in [1,100]. Below speed 100 it does; at speed 100 the function returns before it looks
  at \<^verbatim>\<open>solving\<close> and hands out the generation cap 50. The delay at speed 100 is 0, which
  the scheduler raises to the minimum tick of 1 ms.
\<close>

theorem calc_delay_batch_solving_max_speed:
  "calc_delay_batch 100 cell_count True = (0, 50) \<and>
   \<not> snd (calc_delay_batch 100 cell_count True) \<le> MAX_BATCH_SOLVE \<and>
   scheduled_delay (fst (calc_delay_batch 100 cell_count True)) = 1"
  by (simp add: calc_delay_batch_def DELAY_INSTANT_def MAX_BATCH_GEN_def MAX_BATCH_SOLVE_def
      scheduled_delay_def)

lemma calc_delay_batch_solving_below_max:
  "speed_pct < 100 \<Longrightarrow> snd (calc_delay_batch speed_pct cell_count True) \<le> MAX_BATCH_SOLVE"
  by (simp add: calc_delay_batch_def Let_def)

lemma solving_cap_below_generation_cap: "MAX_BATCH_SOLVE < MAX_BATCH_GEN"
  by (simp add: MAX_BATCH_SOLVE_def MAX_BATCH_GEN_def)

end
